theory Spec2Isabelle
  imports Main "HOL-Library.Word"
begin

section \<open>The logger of log.c: circular DMA queue and transmit pump\<close>

text \<open>
  The development embeds \<^verbatim>\<open>Core/Src/log.c\<close> and the constants of
  \<^verbatim>\<open>Core/Src/log.h\<close>. The three index variables are \<^verbatim>\<open>uint16_t\<close> and are
  16-bit words here. C evaluates every expression over them after integer promotion to
  \<^verbatim>\<open>int\<close> (32 bits on the Cortex-M3 target); all intermediate values stay below
  \<open>2 ^ 18\<close> in absolute value, so the promoted arithmetic is written over \<open>int\<close> and
  each store back into a \<^verbatim>\<open>uint16_t\<close> is the cast \<open>u16\<close>. Every function runs
  from its first line to its return without interruption: the code takes no lock, and
  preemption of \<^verbatim>\<open>logmsg\<close> by another client or by the completion interrupt is outside
  this model.
\<close>

subsection \<open>Constants (log.h)\<close>

abbreviation (input) LOG_ITEM_MAX_SIZE :: int where
  "LOG_ITEM_MAX_SIZE \<equiv> 128"

abbreviation (input) LOG_MAX_TEXT :: int where
  "LOG_MAX_TEXT \<equiv> LOG_ITEM_MAX_SIZE"

abbreviation (input) LOG_DMA_BUFFER_SIZE :: int where
  "LOG_DMA_BUFFER_SIZE \<equiv> 4096"

abbreviation (input) HAL_OK :: int where
  "HAL_OK \<equiv> 0"

type_synonym uint16_t = "16 word"
type_synonym uint32_t = "32 word"

definition u16 :: "int \<Rightarrow> uint16_t" where
  "u16 k = word_of_int k"

subsection \<open>Shared globals\<close>

text \<open>
  \<open>huart2\<close> is the transmit side of the UART handle: \<open>None\<close> when the state is
  \<^verbatim>\<open>HAL_UART_STATE_READY\<close>, \<open>Some (off, n)\<close> while a DMA transfer of \<open>n\<close> bytes
  from offset \<open>off\<close> of the queue buffer is in flight.
\<close>

record log_state =
  usart2_tx_dma_buffer :: "char list"
  log_compose_buffer :: "char list"
  queue_tail :: uint16_t
  queue_head :: uint16_t
  last_dma_count :: uint16_t
  huart2 :: "(nat \<times> nat) option"

text \<open>
  An access outside an array is undefined behaviour in C; the model stops with a fault
  there instead of inventing a result.
\<close>

datatype fault = ComposeOverrun | QueueOverrun | NoTransferInFlight

subsection \<open>The transfer engine (HAL)\<close>

text \<open>
  Modelled from the spec: the HAL UART driver is not part of \<^verbatim>\<open>log.c\<close>. The transfer
  engine performs one one-shot, non-blocking transfer at a time; a request made while it is
  busy is refused, and a zero-length request is rejected or a trivial no-op, so neither
  starts a transfer. The code comment at the call says the same of the busy case.
\<close>

definition HAL_UART_Transmit_DMA :: "log_state \<Rightarrow> nat \<Rightarrow> nat \<Rightarrow> log_state" where
  "HAL_UART_Transmit_DMA s off n =
     (if huart2 s \<noteq> None then s
      else if n = 0 then s
      else s\<lparr>huart2 := Some (off, n)\<rparr>)"

subsection \<open>log\_init\<close>

definition log_init :: "log_state \<Rightarrow> int \<times> log_state" where
  "log_init s =
     (HAL_OK, s\<lparr>queue_tail := 0, queue_head := 0, last_dma_count := 0\<rparr>)"

subsection \<open>queue\_space\_available\<close>

definition queue_space_available :: "int \<Rightarrow> int \<Rightarrow> int" where
  "queue_space_available head tail =
     (if head > tail then LOG_DMA_BUFFER_SIZE - (head - tail) - 1
      else (tail - head) - 1)"

subsection \<open>restart\_dma\<close>

definition restart_dma :: "log_state \<Rightarrow> uint16_t \<times> log_state" where
  "restart_dma s =
     (if huart2 s \<noteq> None then (0, s)
      else
        let h = uint (queue_head s);
            t = uint (queue_tail s);
            dma_bytes = u16 (if h \<le> t then t - h else LOG_DMA_BUFFER_SIZE - (h - t));
            qty_to_send = u16 (if uint dma_bytes > LOG_DMA_BUFFER_SIZE - h
                               then LOG_DMA_BUFFER_SIZE - h else uint dma_bytes);
            s1 = s\<lparr>last_dma_count := qty_to_send\<rparr>;
            s2 = HAL_UART_Transmit_DMA s1 (unat (queue_head s1)) (unat (last_dma_count s1))
        in (last_dma_count s2, s2))"

subsection \<open>logmsg\<close>

text \<open>
  \<^verbatim>\<open>"(%lu) "\<close> applied to \<^verbatim>\<open>HAL_GetTick()\<close>: the tick in decimal, in parentheses,
  followed by a blank.
\<close>

function dec :: "nat \<Rightarrow> string" where
  "dec n = (if n < 10 then [char_of (48 + n)]
            else dec (n div 10) @ [char_of (48 + n mod 10)])"
  by pat_completeness auto
termination
  by (relation "measure id") auto

declare dec.simps [simp del]

definition timestamp :: "uint32_t \<Rightarrow> string" where
  "timestamp tick = ''('' @ dec (unat tick) @ '') ''"

text \<open>
  \<^verbatim>\<open>snprintf(dst + off, cap, ...)\<close> where the fully expanded output is \<open>txt\<close>: at
  most \<open>cap - 1\<close> characters are stored, then a NUL; nothing is stored when \<open>cap = 0\<close>.
  The value returned is the length of the whole output, truncated or not.
\<close>

definition store :: "char list \<Rightarrow> nat \<Rightarrow> char list \<Rightarrow> char list" where
  "store dst off ys = take off dst @ ys @ drop (off + length ys) dst"

definition snprintf_at :: "char list \<Rightarrow> nat \<Rightarrow> nat \<Rightarrow> string \<Rightarrow> char list \<times> int" where
  "snprintf_at dst off cap txt =
     (if cap = 0 then dst else store dst off (take (cap - 1) txt @ [CHR 0x00]),
      int (length txt))"

text \<open>
  Lines 146 to 154 of \<^verbatim>\<open>logmsg\<close>: both renderings into the compose buffer and the
  computation of \<^verbatim>\<open>log_length\<close>. \<open>tick\<close> is the value of \<^verbatim>\<open>HAL_GetTick()\<close> and
  \<open>txt\<close> is what \<^verbatim>\<open>format\<close> and its arguments expand to (an encoding error of
  \<^verbatim>\<open>vsnprintf\<close>, a negative result, is not modelled). The result is the compose buffer,
  \<^verbatim>\<open>ts_len\<close> and \<^verbatim>\<open>log_length\<close>.
\<close>

definition compose_item ::
  "char list \<Rightarrow> uint32_t \<Rightarrow> string \<Rightarrow> char list \<times> uint16_t \<times> uint16_t" where
  "compose_item cb tick txt =
     (let (cb1, r1) = snprintf_at cb 0 (nat LOG_MAX_TEXT) (timestamp tick);
          ts_len = u16 r1;
          (cb2, r2) = snprintf_at cb1 (unat ts_len) (nat (LOG_MAX_TEXT - uint ts_len)) txt;
          l0 = u16 r2;
          l1 = (if uint l0 \<ge> LOG_MAX_TEXT then u16 (LOG_MAX_TEXT - 1) else l0);
          l2 = l1 + 1;
          l3 = l2 + ts_len
      in (cb2, ts_len, l3))"

text \<open>Lines 156 to 158: the availability expression inlined in \<^verbatim>\<open>logmsg\<close>.\<close>

definition log_space_available :: "log_state \<Rightarrow> uint16_t" where
  "log_space_available s =
     (let h = uint (queue_head s); t = uint (queue_tail s) in
      u16 (if h \<le> t then LOG_DMA_BUFFER_SIZE - (t - h) - 1 else h - t - 1))"

text \<open>
  \<^verbatim>\<open>memcpy(dst + doff, src + soff, n)\<close>, with the bounds of both arrays checked.
\<close>

definition memcpy :: "char list \<Rightarrow> nat \<Rightarrow> char list \<Rightarrow> nat \<Rightarrow> nat \<Rightarrow> fault + char list" where
  "memcpy dst doff src soff n =
     (if doff + n > length dst then Inl QueueOverrun
      else if soff + n > length src then Inl ComposeOverrun
      else Inr (store dst doff (take n (drop soff src))))"

text \<open>
  Lines 168 to 177: the copy into the circular buffer, in two \<^verbatim>\<open>memcpy\<close> calls when
  it reaches the end of the array and in one otherwise. The result is the new buffer and
  the new tail. \<^verbatim>\<open>log_length-len_1\<close> is an \<^verbatim>\<open>int\<close>; a negative value would be
  converted to a huge \<^verbatim>\<open>size_t\<close> count.
\<close>

definition queue_copy ::
  "char list \<Rightarrow> uint16_t \<Rightarrow> char list \<Rightarrow> uint16_t \<Rightarrow> fault + (char list \<times> uint16_t)" where
  "queue_copy q tail cb log_length =
     (if uint tail + uint log_length \<ge> LOG_DMA_BUFFER_SIZE then
        let len_1 = u16 (LOG_DMA_BUFFER_SIZE - uint tail);
            n2 = uint log_length - uint len_1
        in if n2 < 0 then Inl QueueOverrun
           else
             (case memcpy q (unat tail) cb 0 (unat len_1) of
                Inl f \<Rightarrow> Inl f
              | Inr q1 \<Rightarrow>
                 (case memcpy q1 0 cb (unat len_1) (nat n2) of
                    Inl f \<Rightarrow> Inl f
                  | Inr q2 \<Rightarrow> Inr (q2, u16 n2)))
      else
        (case memcpy q (unat tail) cb 0 (unat log_length) of
           Inl f \<Rightarrow> Inl f
         | Inr q1 \<Rightarrow> Inr (q1, tail + log_length)))"

text \<open>
  \<^verbatim>\<open>logmsg\<close> as a whole. The result \<open>-1\<close> is the rejection of line 160, which
  comes before any store outside the compose buffer. The store of the line feed at index
  \<^verbatim>\<open>log_length-1\<close> (line 164) is a fault when that index lies outside the 128 bytes of
  \<^verbatim>\<open>_log_compose_buffer\<close>.
\<close>

definition logmsg :: "log_state \<Rightarrow> uint32_t \<Rightarrow> string \<Rightarrow> fault + (int \<times> log_state)" where
  "logmsg s tick txt =
     (let (cb, ts_len, log_length) = compose_item (log_compose_buffer s) tick txt;
          s1 = s\<lparr>log_compose_buffer := cb\<rparr>
      in if uint log_length > uint (log_space_available s1) then Inr (- 1, s1)
         else if uint log_length - 1 < 0 \<or> uint log_length - 1 \<ge> LOG_ITEM_MAX_SIZE
         then Inl ComposeOverrun
         else
           let cb' = cb[nat (uint log_length - 1) := CHR 0x0A] in
           (case queue_copy (usart2_tx_dma_buffer s1) (queue_tail s1) cb' log_length of
              Inl f \<Rightarrow> Inl f
            | Inr (q, t) \<Rightarrow>
                Inr (uint log_length,
                     snd (restart_dma
                       (s1\<lparr>log_compose_buffer := cb', usart2_tx_dma_buffer := q,
                           queue_tail := t\<rparr>)))))"

subsection \<open>HAL\_UART\_TxCpltCallback\<close>

text \<open>The LED toggle at the end has no effect on the logger's state and is left out.\<close>

definition HAL_UART_TxCpltCallback :: "log_state \<Rightarrow> log_state" where
  "HAL_UART_TxCpltCallback s =
     (if queue_head s = queue_tail s then s
      else
        let h1 = u16 (uint (queue_head s) + uint (last_dma_count s));
            h2 = (if uint h1 \<ge> LOG_DMA_BUFFER_SIZE then u16 (uint h1 - LOG_DMA_BUFFER_SIZE)
                  else h1)
        in snd (restart_dma (s\<lparr>queue_head := h2, last_dma_count := 0\<rparr>)))"

subsection \<open>Points of reference\<close>

text \<open>
  The memory at reset: C zero-initialises the static arrays and indices, and the UART is
  ready.
\<close>

definition boot_state :: log_state where
  "boot_state =
     \<lparr>usart2_tx_dma_buffer = replicate 4096 (CHR 0x00),
      log_compose_buffer = replicate 128 (CHR 0x00),
      queue_tail = 0, queue_head = 0, last_dma_count = 0, huart2 = None\<rparr>"

text \<open>A wrapped queue of eight bytes, six of them before the end of the array.\<close>

definition wrapped_state :: log_state where
  "wrapped_state = boot_state\<lparr>queue_head := 4090, queue_tail := 2\<rparr>"

text \<open>
  Two five-byte items were logged at tick 0; the transfer of the first one has just
  finished, so the UART is ready again and the completion callback is about to run.
\<close>

definition second_item_waiting :: log_state where
  "second_item_waiting = boot_state\<lparr>queue_tail := 10, last_dma_count := 5\<rparr>"


definition exact_fit_state :: log_state where
  "exact_fit_state = boot_state\<lparr>queue_head := 4000, queue_tail := 4091\<rparr>"

text \<open>
  The specification's general formula for the free space, in its own words:
  \<open>available = C - 1 - ((tail - head + C) mod C)\<close>.
\<close>

definition spec_space_available :: "int \<Rightarrow> int \<Rightarrow> int" where
  "spec_space_available head tail =
     LOG_DMA_BUFFER_SIZE - 1 - ((tail - head + LOG_DMA_BUFFER_SIZE) mod LOG_DMA_BUFFER_SIZE)"

text \<open>
  What the copy of lines 168 to 177 leaves in the buffer when it stays inside both arrays:
  \<open>item\<close> stored from position \<open>tp\<close> on, continuing at the front of the array.
\<close>

definition ring_write :: "char list \<Rightarrow> nat \<Rightarrow> char list \<Rightarrow> char list" where
  "ring_write q tp item =
     (if 4096 \<le> tp + length item
      then store (store q tp (take (4096 - tp) item)) 0 (drop (4096 - tp) item)
      else store q tp item)"

definition first_item_logged :: log_state where
  "first_item_logged = snd (projr (logmsg (snd (log_init boot_state)) 0 ''hello''))"

subsection \<open>The queue invariant and the states the logger can reach\<close>

text \<open>
  The number of bytes queued, as \<^verbatim>\<open>restart_dma\<close> computes it (lines 108 to 110) before
  the cast to \<^verbatim>\<open>uint16_t\<close>.
\<close>

definition pending_bytes :: "log_state \<Rightarrow> int" where
  "pending_bytes s =
     (let h = uint (queue_head s); t = uint (queue_tail s) in
      if h \<le> t then t - h else LOG_DMA_BUFFER_SIZE - (h - t))"

definition queue_invariant :: "log_state \<Rightarrow> bool" where
  "queue_invariant s \<longleftrightarrow>
     0 \<le> uint (queue_head s) \<and> uint (queue_head s) < LOG_DMA_BUFFER_SIZE
     \<and> 0 \<le> uint (queue_tail s) \<and> uint (queue_tail s) < LOG_DMA_BUFFER_SIZE
     \<and> (pending_bytes s = 0) = (queue_head s = queue_tail s)
     \<and> 0 \<le> pending_bytes s \<and> pending_bytes s \<le> LOG_DMA_BUFFER_SIZE - 1"

text \<open>
  The states reached from \<^verbatim>\<open>log_init\<close> by any sequence of the four operations, with
  the arrays at their declared sizes. The UART may change its state at any moment
  (rule \<open>engine\<close>), and the callback may run at any moment.
\<close>

inductive reachable :: "log_state \<Rightarrow> bool" where
  init: "length (usart2_tx_dma_buffer s) = 4096 \<Longrightarrow> length (log_compose_buffer s) = 128
           \<Longrightarrow> reachable (snd (log_init s))"
| log: "reachable s \<Longrightarrow> logmsg s tick txt = Inr (r, s') \<Longrightarrow> reachable s'"
| pump: "reachable s \<Longrightarrow> reachable (snd (restart_dma s))"
| complete: "reachable s \<Longrightarrow> reachable (HAL_UART_TxCpltCallback s)"
| engine: "reachable s \<Longrightarrow> reachable (s\<lparr>huart2 := e\<rparr>)"

text \<open>
  The inductive strengthening: the last DMA count never reaches past the end of the array
  from head.
\<close>

definition pump_invariant :: "log_state \<Rightarrow> bool" where
  "pump_invariant s \<longleftrightarrow>
     length (usart2_tx_dma_buffer s) = 4096 \<and> length (log_compose_buffer s) = 128
     \<and> unat (queue_head s) < 4096 \<and> unat (queue_tail s) < 4096
     \<and> unat (queue_head s) + unat (last_dma_count s) \<le> 4096"

definition pending :: "nat \<Rightarrow> nat \<Rightarrow> nat" where
  "pending h t = (if h \<le> t then t - h else 4096 - h + t)"

subsection \<open>The logger together with its transfer engine\<close>

text \<open>The bytes of the circular range from head up to tail, oldest first.\<close>

definition ring_read :: "char list \<Rightarrow> nat \<Rightarrow> nat \<Rightarrow> char list" where
  "ring_read q h t = (if h \<le> t then take (t - h) (drop h q) else drop h q @ take t q)"

definition queued :: "log_state \<Rightarrow> char list" where
  "queued s = ring_read (usart2_tx_dma_buffer s) (unat (queue_head s)) (unat (queue_tail s))"

text \<open>
  \<open>wire\<close> is what the UART has transmitted so far. \<open>accepted\<close> is a history variable:
  the bytes of every item \<^verbatim>\<open>logmsg\<close> has copied into the queue, in the order of the
  calls.
\<close>

record system =
  mem :: log_state
  wire :: "char list"
  accepted :: "char list"

datatype event = Log uint32_t string | Complete

text \<open>
  A client calls \<^verbatim>\<open>logmsg\<close>. A rejected call (result \<open>-1\<close>) adds nothing to the
  history; an accepted one adds the \<open>r\<close> bytes it copied out of the compose buffer.
\<close>

definition client_log :: "system \<Rightarrow> uint32_t \<Rightarrow> string \<Rightarrow> fault + system" where
  "client_log y tick txt =
     (case logmsg (mem y) tick txt of
        Inl f \<Rightarrow> Inl f
      | Inr (r, m) \<Rightarrow>
          Inr (y\<lparr>mem := m,
                 accepted := accepted y @ (if r < 0 then [] else take (nat r) (log_compose_buffer m))\<rparr>))"

text \<open>
  Modelled from the spec: the transfer engine signals completion exactly once per
  transfer. The bytes of the armed range have then gone out, the UART is ready again, and
  the HAL calls \<^verbatim>\<open>HAL_UART_TxCpltCallback\<close>. There is no completion without a transfer.
\<close>

definition tx_complete :: "system \<Rightarrow> fault + system" where
  "tx_complete y =
     (case huart2 (mem y) of
        None \<Rightarrow> Inl NoTransferInFlight
      | Some (off, n) \<Rightarrow>
          Inr (y\<lparr>wire := wire y @ take n (drop off (usart2_tx_dma_buffer (mem y))),
                 mem := HAL_UART_TxCpltCallback ((mem y)\<lparr>huart2 := None\<rparr>)\<rparr>))"

fun step :: "system \<Rightarrow> event \<Rightarrow> fault + system" where
  "step y (Log tick txt) = client_log y tick txt"
| "step y Complete = tx_complete y"

fun run :: "system \<Rightarrow> event list \<Rightarrow> fault + system" where
  "run y [] = Inr y"
| "run y (e # es) = (case step y e of Inl f \<Rightarrow> Inl f | Inr y' \<Rightarrow> run y' es)"


text \<open>
  The invariant of the combined system: a ready UART means an empty queue; a transfer in
  flight is the one recorded in \<^verbatim>\<open>_last_dma_count\<close>, starts at head, is not empty and
  stays inside both the queued range and the array; and the wire followed by the queue is
  the history.
\<close>

definition fifo_invariant :: "system \<Rightarrow> bool" where
  "fifo_invariant y \<longleftrightarrow>
     (let m = mem y; h = unat (queue_head m); t = unat (queue_tail m) in
      length (usart2_tx_dma_buffer m) = 4096 \<and> length (log_compose_buffer m) = 128
      \<and> h < 4096 \<and> t < 4096
      \<and> (case huart2 m of
            None \<Rightarrow> h = t
          | Some (off, k) \<Rightarrow>
              off = h \<and> k = unat (last_dma_count m) \<and> 0 < k \<and> k \<le> pending h t
              \<and> h + k \<le> 4096)
      \<and> wire y @ queued m = accepted y)"

definition two_messages :: "event list" where
  "two_messages = [Log 0 ''hello'', Log 1 ''hi'', Complete, Complete]"

definition after_two_messages :: system where
  "after_two_messages =
     projr (run \<lparr>mem = snd (log_init boot_state), wire = [], accepted = []\<rparr> two_messages)"

section \<open>Arithmetic of the indices\<close>

lemma uint_u16: "0 \<le> k \<Longrightarrow> k < 65536 \<Longrightarrow> uint (u16 k) = k"
  by (simp add: u16_def uint_word_of_int)

lemma unat_u16: "0 \<le> k \<Longrightarrow> k < 65536 \<Longrightarrow> unat (u16 k) = nat k"
  by (simp add: unat_eq_nat_uint uint_u16)

lemma available_arith:
  assumes "0 \<le> (h::int)" "h < 4096" "0 \<le> (t::int)" "t < 4096"
  shows "(if h \<le> t then 4096 - (t - h) - 1 else h - t - 1) = 4096 - 1 - ((t - h + 4096) mod 4096)"
proof (cases "h \<le> t")
  case True
  with assms have "(t - h + 4096) mod 4096 = t - h" by simp
  with True show ?thesis by simp
next
  case False
  with assms have "(t - h + 4096) mod 4096 = t - h + 4096"
    by (intro mod_pos_pos_trivial) simp_all
  with False show ?thesis by simp
qed

lemma unat_u16_int: "k < 65536 \<Longrightarrow> unat (u16 (int k)) = k"
  by (simp add: unat_u16)

lemma u16_add: "(a::uint16_t) + b = u16 (uint a + uint b)"
  by (simp add: u16_def)

section \<open>The free-space computation\<close>

text \<open>
  The expression inlined in \<^verbatim>\<open>logmsg\<close> is the specification's formula whenever both
  indices are inside the array; the result lies between 0 and \<open>C - 1\<close>.
\<close>

lemma spec_space_available_range:
  "0 \<le> spec_space_available h t \<and> spec_space_available h t \<le> LOG_DMA_BUFFER_SIZE - 1"
  by (simp add: spec_space_available_def)

lemma log_space_available_spec:
  assumes "uint (queue_head s) < LOG_DMA_BUFFER_SIZE" "uint (queue_tail s) < LOG_DMA_BUFFER_SIZE"
  shows "uint (log_space_available s)
           = spec_space_available (uint (queue_head s)) (uint (queue_tail s))"
proof -
  have r: "0 \<le> spec_space_available (uint (queue_head s)) (uint (queue_tail s))"
          "spec_space_available (uint (queue_head s)) (uint (queue_tail s)) < 65536"
    by (simp_all add: spec_space_available_def)
  have "log_space_available s
          = u16 (spec_space_available (uint (queue_head s)) (uint (queue_tail s)))"
    unfolding log_space_available_def Let_def spec_space_available_def
    using assms by (subst available_arith) simp_all
  with r show ?thesis by (simp add: uint_u16)
qed

lemma log_space_available_empty_iff:
  assumes "uint (queue_head s) < LOG_DMA_BUFFER_SIZE" "uint (queue_tail s) < LOG_DMA_BUFFER_SIZE"
  shows "(uint (log_space_available s) = LOG_DMA_BUFFER_SIZE - 1) = (queue_head s = queue_tail s)"
proof -
  define h where "h = uint (queue_head s)"
  define t where "t = uint (queue_tail s)"
  have b: "0 \<le> h" "h < 4096" "0 \<le> t" "t < 4096"
    using assms by (simp_all add: h_def t_def)
  then have r: "0 \<le> (if h \<le> t then 4096 - (t - h) - 1 else h - t - 1)"
               "(if h \<le> t then 4096 - (t - h) - 1 else h - t - 1) < 65536"
    by auto
  have "uint (log_space_available s) = (if h \<le> t then 4096 - (t - h) - 1 else h - t - 1)"
    unfolding log_space_available_def Let_def h_def [symmetric] t_def [symmetric]
    using r by (rule uint_u16)
  moreover have "((if h \<le> t then 4096 - (t - h) - 1 else h - t - 1) = 4095) = (h = t)"
    using b by auto
  moreover have "(h = t) = (queue_head s = queue_tail s)"
    by (simp add: h_def t_def word_uint_eq_iff)
  ultimately show ?thesis by simp
qed

text \<open>
  Inside the array the stand-alone function returns one less than the number of bytes
  queued, not the number of bytes free.
\<close>

lemma queue_space_available_used:
  assumes "0 \<le> h" "h < 4096" "0 \<le> t" "t < 4096"
  shows "queue_space_available h t = 4094 - spec_space_available h t"
proof -
  have "spec_space_available h t = (if h \<le> t then 4096 - (t - h) - 1 else h - t - 1)"
    unfolding spec_space_available_def using assms by (subst available_arith) simp_all
  then show ?thesis
    by (simp add: queue_space_available_def)
qed

text \<open>
  C2. The claim: for all head and tail inside the array, both the stand-alone function
  \<^verbatim>\<open>queue_space_available\<close> and the expression inlined in \<^verbatim>\<open>logmsg\<close> equal
  \<open>C - 1 - ((tail - head + C) mod C)\<close>, which is \<open>C - 1\<close> exactly for the empty queue.
  The inlined expression does (\<open>log_space_available_spec\<close>,
  \<open>log_space_available_empty_iff\<close>). The stand-alone function does not: on the empty
  queue \<open>head = tail = 0\<close> it returns \<open>-1\<close>, where the formula and the function's own
  comment ("If head == tail, empty, queue size available") give the whole usable size.
\<close>

theorem queue_space_available_empty_queue:
  "queue_space_available 0 0 = - 1 \<and> spec_space_available 0 0 = 4095"
  by (simp add: queue_space_available_def spec_space_available_def)

section \<open>Rendering a log item\<close>

text \<open>The timestamp of a 32-bit tick has between 4 and 13 characters.\<close>

lemma dec_nonempty: "dec n \<noteq> []"
  by (subst dec.simps) simp

lemma dec_length: "0 < k \<Longrightarrow> n < 10 ^ k \<Longrightarrow> length (dec n) \<le> k"
proof (induction k arbitrary: n)
  case 0
  then show ?case by simp
next
  case (Suc k)
  show ?case
  proof (cases "n < 10")
    case True
    then show ?thesis by (subst dec.simps) simp
  next
    case False
    with Suc.prems have k: "0 < k" by (cases k) auto
    from Suc.prems have "n div 10 < 10 ^ k"
      by (simp add: less_mult_imp_div_less mult.commute)
    with Suc.IH k have "length (dec (n div 10)) \<le> k" by blast
    with False show ?thesis by (subst dec.simps) simp
  qed
qed

lemma timestamp_length: "4 \<le> length (timestamp tick) \<and> length (timestamp tick) \<le> 13"
proof -
  have "unat tick < 2 ^ 32" using unsigned_less [of tick, where ?'a = nat] by simp
  then have "unat tick < 10 ^ 10" by simp
  then have "length (dec (unat tick)) \<le> 10" by (intro dec_length) simp_all
  with dec_nonempty [of "unat tick"] show ?thesis
    by (cases "dec (unat tick)") (simp_all add: timestamp_def)
qed

lemma length_store: "off + length ys \<le> length dst \<Longrightarrow> length (store dst off ys) = length dst"
  by (simp add: store_def)

text \<open>
  What lines 146 to 154 compute: the compose buffer, the timestamp length and the item
  length, the text length being taken modulo \<open>2 ^ 16\<close> by the store into a
  \<^verbatim>\<open>uint16_t\<close> and then clamped to 127.
\<close>

lemma u16_mod: "u16 (k mod 65536) = u16 k"
  by (simp add: u16_def word_uint_eq_iff uint_word_of_int)

lemma compose_item_eq:
  "compose_item cb tick txt =
     (store (store cb 0 (timestamp tick @ [CHR 0x00])) (length (timestamp tick))
        (take (127 - length (timestamp tick)) txt @ [CHR 0x00]),
      u16 (int (length (timestamp tick))),
      u16 (min (int (length txt) mod 65536) 127 + 1 + int (length (timestamp tick))))"
proof -
  define ts where "ts = timestamp tick"
  define L where "L = length ts"
  have L: "4 \<le> L" "L \<le> 13"
    using timestamp_length [of tick] by (simp_all add: L_def ts_def)
  have uL: "uint (u16 (int L)) = int L" "unat (u16 (int L)) = L"
    using L by (simp_all add: uint_u16 unat_u16)
  have cap: "nat (128 - int L) = 128 - L" "128 - L \<noteq> 0" "128 - L - 1 = 127 - L"
    using L by simp_all
  have tk: "take 127 ts = ts"
    using L by (simp add: L_def)
  have u0: "uint (u16 (int (length txt))) = int (length txt) mod 65536"
    unfolding u16_def uint_word_of_int by simp
  have l1: "(if uint (u16 (int (length txt))) \<ge> 128 then u16 (128 - 1) else u16 (int (length txt)))
              = u16 (min (int (length txt) mod 65536) 127)"
    unfolding u0 using u16_mod [of "int (length txt)"] by (simp add: min_def)
  have mb: "0 \<le> min (int (length txt) mod 65536) 127" "min (int (length txt) mod 65536) 127 \<le> 127"
    by simp_all
  have l3: "u16 (min (int (length txt) mod 65536) 127) + 1 + u16 (int L)
              = u16 (min (int (length txt) mod 65536) 127 + 1 + int L)"
    by (simp add: u16_def)
  show ?thesis
    unfolding compose_item_def snprintf_at_def Let_def ts_def [symmetric] L_def [symmetric]
    using L by (simp add: uL cap tk l1 l3 del: of_nat_diff)
qed

lemma compose_item_length:
  "uint (snd (snd (compose_item cb tick txt)))
     = min (int (length txt) mod 65536) 127 + 1 + int (length (timestamp tick))"
proof -
  have "0 \<le> min (int (length txt) mod 65536) 127 + 1 + int (length (timestamp tick))"
    by simp
  moreover have "min (int (length txt) mod 65536) 127 \<le> 127"
    by simp
  then have "min (int (length txt) mod 65536) 127 + 1 + int (length (timestamp tick)) < 65536"
    using timestamp_length [of tick] by linarith
  ultimately show ?thesis
    by (simp only: compose_item_eq snd_conv uint_u16)
qed

lemma compose_item_buffer_length:
  assumes "length cb = 128"
  shows "length (fst (compose_item cb tick txt)) = 128"
proof -
  have L: "length (timestamp tick) \<le> 13"
    using timestamp_length [of tick] by simp
  have "length (store cb 0 (timestamp tick @ [CHR 0x00])) = 128"
    using assms L by (subst length_store) simp_all
  then have "length (store (store cb 0 (timestamp tick @ [CHR 0x00])) (length (timestamp tick))
        (take (127 - length (timestamp tick)) txt @ [CHR 0x00])) = 128"
    using L by (subst length_store) simp_all
  then show ?thesis by (simp only: compose_item_eq fst_conv)
qed

text \<open>An untruncated item is the timestamp, the text and a line feed.\<close>

lemma compose_item_bytes:
  assumes cb: "length cb = 128"
      and fit: "length (timestamp tick) + length txt \<le> 127"
      and c: "compose_item cb tick txt = (cb2, ts_len, log_length)"
  shows "unat log_length = length (timestamp tick) + length txt + 1"
    and "take (unat log_length) (cb2[unat log_length - 1 := CHR 0x0A])
           = timestamp tick @ txt @ [CHR 0x0A]"
proof -
  define ts where "ts = timestamp tick"
  have L: "length ts \<le> 13" using timestamp_length [of tick] by (simp add: ts_def)
  have m: "int (length txt) mod 65536 = int (length txt)"
    using fit by simp
  have "uint log_length = min (int (length txt) mod 65536) 127 + 1 + int (length ts)"
    using compose_item_length [of cb tick "txt"] c by (simp add: ts_def)
  then have "uint log_length = int (length ts + length txt + 1)"
    unfolding m using fit by (simp add: ts_def)
  then show n: "unat log_length = length (timestamp tick) + length txt + 1"
    by (simp add: ts_def unat_eq_nat_uint del: nat_uint_eq)
  have "cb2 = store (store cb 0 (ts @ [CHR 0x00])) (length ts)
        (take (127 - length ts) txt @ [CHR 0x00])"
    using c by (simp add: compose_item_eq ts_def)
  also have "\<dots> = ts @ txt @ [CHR 0x00] @ drop (length ts + length txt + 1) cb"
    using cb fit L by (simp add: store_def ts_def add.commute)
  finally have "cb2 = (ts @ txt) @ CHR 0x00 # drop (length ts + length txt + 1) cb"
    by simp
  then have "cb2[length (ts @ txt) := CHR 0x0A] = (ts @ txt) @ CHR 0x0A # drop (length ts + length txt + 1) cb"
    by (simp only: list_update_length)
  then show "take (unat log_length) (cb2[unat log_length - 1 := CHR 0x0A])
           = timestamp tick @ txt @ [CHR 0x0A]"
    by (simp add: n ts_def)
qed

text \<open>
  C3. The claim: the item length computed by \<^verbatim>\<open>logmsg\<close> (timestamp prefix, clamped
  text, line feed) never exceeds \<^verbatim>\<open>LOG_ITEM_MAX_SIZE\<close>, so the line-feed store at index
  \<^verbatim>\<open>log_length-1\<close> and the copy out of the compose buffer stay inside it. At tick 0
  with a text of 124 characters the computed length is 129, and on the empty queue
  \<^verbatim>\<open>logmsg\<close> stores the line feed at index 128 of the 128-byte compose buffer.
\<close>

theorem logmsg_compose_overrun:
  "snd (snd (compose_item (log_compose_buffer boot_state) 0 (replicate 124 (CHR ''A'')))) = 129
   \<and> logmsg boot_state 0 (replicate 124 (CHR ''A'')) = Inl ComposeOverrun"
  by (simp add: logmsg_def compose_item_def snprintf_at_def store_def timestamp_def dec.simps
      u16_def boot_state_def log_space_available_def Let_def)

section \<open>Rejection of an item that does not fit\<close>

text \<open>
  C4. Whenever the computed item length exceeds the space currently available,
  \<^verbatim>\<open>logmsg\<close> returns \<open>-1\<close> and the only variable that differs afterwards is the
  compose buffer, into which the text was rendered: the queue storage, head, tail, the
  last DMA count and the UART state are exactly as before.
\<close>

theorem logmsg_rejects_atomically:
  assumes "uint (log_space_available s)
             < uint (snd (snd (compose_item (log_compose_buffer s) tick txt)))"
  shows "logmsg s tick txt
           = Inr (- 1, s\<lparr>log_compose_buffer :=
                              fst (compose_item (log_compose_buffer s) tick txt)\<rparr>)"
proof -
  obtain cb ts_len log_length
    where c: "compose_item (log_compose_buffer s) tick txt = (cb, ts_len, log_length)"
    by (cases "compose_item (log_compose_buffer s) tick txt") auto
  with assms
  have "uint (log_space_available (s\<lparr>log_compose_buffer := cb\<rparr>)) < uint log_length"
    by (simp add: log_space_available_def)
  with c show ?thesis by (simp add: logmsg_def)
qed

theorem logmsg_rejects_atomically_witness:
  "uint (log_space_available (boot_state\<lparr>queue_tail := 4095\<rparr>))
     < uint (snd (snd (compose_item (log_compose_buffer (boot_state\<lparr>queue_tail := 4095\<rparr>))
                        0 ''hi'')))
   \<and> logmsg (boot_state\<lparr>queue_tail := 4095\<rparr>) 0 ''hi''
       = Inr (- 1, boot_state\<lparr>queue_tail := 4095,
                log_compose_buffer :=
                  fst (compose_item (log_compose_buffer (boot_state\<lparr>queue_tail := 4095\<rparr>))
                         0 ''hi'')\<rparr>)"
proof -
  have h: "uint (log_space_available (boot_state\<lparr>queue_tail := 4095\<rparr>))
     < uint (snd (snd (compose_item (log_compose_buffer (boot_state\<lparr>queue_tail := 4095\<rparr>))
                        0 ''hi'')))"
    by (simp add: compose_item_def snprintf_at_def store_def timestamp_def dec.simps
        u16_def boot_state_def log_space_available_def Let_def)
  show ?thesis
    using h logmsg_rejects_atomically [OF h] by simp
qed

section \<open>The transmit pump\<close>

lemma HAL_UART_Transmit_DMA_fields [simp]:
  "usart2_tx_dma_buffer (HAL_UART_Transmit_DMA s off n) = usart2_tx_dma_buffer s"
  "log_compose_buffer (HAL_UART_Transmit_DMA s off n) = log_compose_buffer s"
  "queue_tail (HAL_UART_Transmit_DMA s off n) = queue_tail s"
  "queue_head (HAL_UART_Transmit_DMA s off n) = queue_head s"
  "last_dma_count (HAL_UART_Transmit_DMA s off n) = last_dma_count s"
  by (simp_all add: HAL_UART_Transmit_DMA_def)

lemma pump_arith:
  assumes "0 \<le> (h::int)" "h < 4096" "0 \<le> (t::int)" "t < 4096"
  shows "0 \<le> (if h \<le> t then t - h else 4096 - (h - t))"
    and "(if h \<le> t then t - h else 4096 - (h - t)) < 4096"
  using assms by auto

lemma restart_dma_eq:
  assumes "uint (queue_head s) < LOG_DMA_BUFFER_SIZE" "uint (queue_tail s) < LOG_DMA_BUFFER_SIZE"
  shows "let h = uint (queue_head s); t = uint (queue_tail s);
             pending = (if h \<le> t then t - h else LOG_DMA_BUFFER_SIZE - (h - t));
             runnable = min pending (LOG_DMA_BUFFER_SIZE - h)
         in restart_dma s =
              (if huart2 s \<noteq> None then (0, s)
               else (u16 runnable,
                     HAL_UART_Transmit_DMA (s\<lparr>last_dma_count := u16 runnable\<rparr>)
                       (nat h) (nat runnable)))
            \<and> 0 \<le> runnable \<and> runnable \<le> LOG_DMA_BUFFER_SIZE - h
            \<and> uint (u16 runnable) = runnable"
proof -
  define h where "h = uint (queue_head s)"
  define t where "t = uint (queue_tail s)"
  define pending where "pending = (if h \<le> t then t - h else 4096 - (h - t))"
  define runnable where "runnable = min pending (4096 - h)"
  have b: "0 \<le> h" "h < 4096" "0 \<le> t" "t < 4096"
    using assms by (simp_all add: h_def t_def)
  have p: "0 \<le> pending" "pending < 4096"
    unfolding pending_def using pump_arith [OF b] by simp_all
  have r: "0 \<le> runnable" "runnable \<le> 4096 - h" "runnable < 65536"
    using p b by (simp_all add: runnable_def)
  have up: "uint (u16 pending) = pending"
    using p by (simp add: uint_u16)
  have q: "(if uint (u16 pending) > 4096 - h then 4096 - h else uint (u16 pending)) = runnable"
    by (simp add: up runnable_def min_def)
  have ur: "uint (u16 runnable) = runnable"
    using r by (simp add: uint_u16)
  have idle: "restart_dma s = (u16 runnable,
                 HAL_UART_Transmit_DMA (s\<lparr>last_dma_count := u16 runnable\<rparr>)
                   (nat h) (nat runnable))" if "huart2 s = None"
  proof -
    have "restart_dma s =
       (let s1 = s\<lparr>last_dma_count := u16 (if uint (u16 pending) > 4096 - h then 4096 - h else uint (u16 pending))\<rparr>;
            s2 = HAL_UART_Transmit_DMA s1 (unat (queue_head s1)) (unat (last_dma_count s1))
        in (last_dma_count s2, s2))"
      using that by (simp add: restart_dma_def Let_def h_def t_def pending_def)
    also have "\<dots> = (u16 runnable,
                 HAL_UART_Transmit_DMA (s\<lparr>last_dma_count := u16 runnable\<rparr>)
                   (nat h) (nat runnable))"
      unfolding q using r by (simp add: Let_def unat_u16 h_def)
    finally show ?thesis .
  qed
  have busy: "restart_dma s = (0, s)" if "huart2 s \<noteq> None"
    using that by (simp add: restart_dma_def)
  have "restart_dma s =
          (if huart2 s \<noteq> None then (0, s)
           else (u16 runnable,
                 HAL_UART_Transmit_DMA (s\<lparr>last_dma_count := u16 runnable\<rparr>)
                   (nat h) (nat runnable)))"
    using idle busy by (cases "huart2 s") simp_all
  then show ?thesis
    unfolding Let_def h_def [symmetric] t_def [symmetric] pending_def [symmetric]
      runnable_def [symmetric]
    using r ur by simp
qed

text \<open>
  C5. For head and tail inside the array: when the UART is busy \<^verbatim>\<open>restart_dma\<close>
  returns 0 and leaves the state as it is; otherwise, with
  \<open>pending = (head \<le> tail) ? (tail - head) : (C - (head - tail))\<close> and
  \<open>runnable = min pending (C - head)\<close>, it stores \<open>runnable\<close> in
  \<^verbatim>\<open>_last_dma_count\<close>, requests a transfer of \<open>runnable\<close> bytes from offset head and
  returns \<open>runnable\<close>, which is at most \<open>C - head\<close>: one request never reads past the
  end of the array.
\<close>

theorem restart_dma_spec:
  assumes "uint (queue_head s) < LOG_DMA_BUFFER_SIZE" "uint (queue_tail s) < LOG_DMA_BUFFER_SIZE"
  shows "let h = uint (queue_head s); t = uint (queue_tail s);
             pending = (if h \<le> t then t - h else LOG_DMA_BUFFER_SIZE - (h - t));
             runnable = min pending (LOG_DMA_BUFFER_SIZE - h)
         in restart_dma s =
              (if huart2 s \<noteq> None then (0, s)
               else (u16 runnable,
                     HAL_UART_Transmit_DMA (s\<lparr>last_dma_count := u16 runnable\<rparr>)
                       (nat h) (nat runnable)))
            \<and> 0 \<le> runnable \<and> runnable \<le> LOG_DMA_BUFFER_SIZE - h
            \<and> uint (u16 runnable) = runnable"
  using assms by (rule restart_dma_eq)

theorem restart_dma_spec_witness:
  "uint (queue_head wrapped_state) < LOG_DMA_BUFFER_SIZE
   \<and> uint (queue_tail wrapped_state) < LOG_DMA_BUFFER_SIZE
   \<and> restart_dma wrapped_state
       = (6, wrapped_state\<lparr>last_dma_count := 6, huart2 := Some (4090, 6)\<rparr>)"
proof -
  have h: "uint (queue_head wrapped_state) < LOG_DMA_BUFFER_SIZE"
          "uint (queue_tail wrapped_state) < LOG_DMA_BUFFER_SIZE"
    by (simp_all add: wrapped_state_def boot_state_def)
  show ?thesis
    using h restart_dma_spec [OF h]
    by (simp add: wrapped_state_def boot_state_def Let_def HAL_UART_Transmit_DMA_def u16_def)
qed

lemma restart_dma_keeps [simp]:
  "queue_head (snd (restart_dma s)) = queue_head s"
  "queue_tail (snd (restart_dma s)) = queue_tail s"
  "usart2_tx_dma_buffer (snd (restart_dma s)) = usart2_tx_dma_buffer s"
  "log_compose_buffer (snd (restart_dma s)) = log_compose_buffer s"
  by (simp_all add: restart_dma_def Let_def)

lemma restart_dma_count:
  "huart2 s = None \<or> last_dma_count s = 0 \<Longrightarrow> last_dma_count (snd (restart_dma s)) = fst (restart_dma s)"
  by (auto simp add: restart_dma_def Let_def)

lemma restart_dma_busy: "huart2 s \<noteq> None \<Longrightarrow> restart_dma s = (0, s)"
  by (simp add: restart_dma_def)

section \<open>The completion handler\<close>

text \<open>
  C9. When head equals tail as the completion is handled, the callback returns at once:
  the whole state, with head, tail, the last DMA count and the UART state, is as it was,
  so no transfer is armed.
\<close>

theorem callback_empty_queue_no_action:
  "queue_head s = queue_tail s \<Longrightarrow> HAL_UART_TxCpltCallback s = s"
  by (simp add: HAL_UART_TxCpltCallback_def)

theorem callback_empty_queue_no_action_witness:
  "queue_head boot_state = queue_tail boot_state
   \<and> HAL_UART_TxCpltCallback boot_state = boot_state"
  using callback_empty_queue_no_action [of boot_state] by (simp add: boot_state_def)

text \<open>
  C6 as stated asks that \<^verbatim>\<open>_last_dma_count\<close> be 0 once the callback has returned.
  In the state \<open>second_item_waiting\<close> the queue is not empty; the callback advances
  head to 5, resets the count, and its closing call of \<^verbatim>\<open>restart_dma\<close> arms the second
  item, so the count is 5 on return.
\<close>

theorem callback_count_counterexample:
  "queue_head second_item_waiting \<noteq> queue_tail second_item_waiting
   \<and> last_dma_count (HAL_UART_TxCpltCallback second_item_waiting) = 5"
  by (simp add: second_item_waiting_def boot_state_def HAL_UART_TxCpltCallback_def
      restart_dma_def HAL_UART_Transmit_DMA_def u16_def Let_def)

lemma head_advance_arith:
  assumes "0 \<le> (k::int)" "k < 8192"
  shows "(if k \<ge> 4096 then k - 4096 else k) = k mod 4096"
proof (cases "k \<ge> 4096")
  case True
  with assms have "(k - 4096) mod 4096 = k - 4096"
    by (intro mod_pos_pos_trivial) simp_all
  with True show ?thesis by simp
next
  case False
  with assms show ?thesis by simp
qed

lemma callback_eq:
  assumes "queue_head s \<noteq> queue_tail s"
      and "uint (queue_head s) + uint (last_dma_count s) < 2 * LOG_DMA_BUFFER_SIZE"
  shows "let h' = (uint (queue_head s) + uint (last_dma_count s)) mod LOG_DMA_BUFFER_SIZE;
             rearm = restart_dma (s\<lparr>queue_head := u16 h', last_dma_count := 0\<rparr>)
         in HAL_UART_TxCpltCallback s = snd rearm
            \<and> uint (queue_head (HAL_UART_TxCpltCallback s)) = h'
            \<and> last_dma_count (HAL_UART_TxCpltCallback s)
                = (if huart2 s \<noteq> None then 0 else fst rearm)"
proof -
  define k where "k = uint (queue_head s) + uint (last_dma_count s)"
  have k: "0 \<le> k" "k < 8192"
    using assms(2) by (simp_all add: k_def)
  have m: "0 \<le> k mod 4096" "k mod 4096 < 65536"
    using pos_mod_bound [of 4096 k] by simp_all
  have u: "uint (u16 k) = k"
    using k by (simp add: uint_u16)
  have e: "(if uint (u16 k) \<ge> 4096 then u16 (uint (u16 k) - 4096) else u16 k) = u16 (k mod 4096)"
    unfolding u using head_advance_arith [OF k] by (simp split: if_splits)
  have "HAL_UART_TxCpltCallback s
          = snd (restart_dma
              (s\<lparr>queue_head := (if uint (u16 k) \<ge> 4096 then u16 (uint (u16 k) - 4096) else u16 k),
                 last_dma_count := 0\<rparr>))"
    using assms(1) unfolding HAL_UART_TxCpltCallback_def Let_def k_def by simp
  then have c: "HAL_UART_TxCpltCallback s
                 = snd (restart_dma (s\<lparr>queue_head := u16 (k mod 4096), last_dma_count := 0\<rparr>))"
    unfolding e .
  have "last_dma_count (snd (restart_dma (s\<lparr>queue_head := u16 (k mod 4096), last_dma_count := 0\<rparr>)))
          = fst (restart_dma (s\<lparr>queue_head := u16 (k mod 4096), last_dma_count := 0\<rparr>))"
    by (rule restart_dma_count) simp
  moreover have "fst (restart_dma (s\<lparr>queue_head := u16 (k mod 4096), last_dma_count := 0\<rparr>)) = 0"
    if "huart2 s \<noteq> None"
    using that by (simp add: restart_dma_busy)
  ultimately show ?thesis
    unfolding Let_def k_def [symmetric] c using m by (auto simp add: uint_u16)
qed

text \<open>
  C6, amended. For a non-empty queue whose head plus last DMA count stays below \<open>2 * C\<close>
  (which holds for every count armed by \<^verbatim>\<open>restart_dma\<close>, since that is at most
  \<open>C - head\<close>): the callback moves head to \<open>(head + last_dma_count) mod C\<close>, resets
  \<^verbatim>\<open>_last_dma_count\<close> to 0 and then calls \<^verbatim>\<open>restart_dma\<close>; on return the count
  is what that call returned, 0 if the UART is busy and the newly armed length otherwise.
\<close>

theorem callback_advances_head:
  assumes "queue_head s \<noteq> queue_tail s"
      and "uint (queue_head s) + uint (last_dma_count s) < 2 * LOG_DMA_BUFFER_SIZE"
  shows "let h' = (uint (queue_head s) + uint (last_dma_count s)) mod LOG_DMA_BUFFER_SIZE;
             rearm = restart_dma (s\<lparr>queue_head := u16 h', last_dma_count := 0\<rparr>)
         in HAL_UART_TxCpltCallback s = snd rearm
            \<and> uint (queue_head (HAL_UART_TxCpltCallback s)) = h'
            \<and> last_dma_count (HAL_UART_TxCpltCallback s)
                = (if huart2 s \<noteq> None then 0 else fst rearm)"
  using assms by (rule callback_eq)

theorem callback_advances_head_witness:
  "queue_head second_item_waiting \<noteq> queue_tail second_item_waiting
   \<and> uint (queue_head second_item_waiting) + uint (last_dma_count second_item_waiting)
       < 2 * LOG_DMA_BUFFER_SIZE
   \<and> HAL_UART_TxCpltCallback second_item_waiting
       = second_item_waiting\<lparr>queue_head := 5, last_dma_count := 5, huart2 := Some (5, 5)\<rparr>"
proof -
  have h: "queue_head second_item_waiting \<noteq> queue_tail second_item_waiting"
          "uint (queue_head second_item_waiting) + uint (last_dma_count second_item_waiting)
             < 2 * LOG_DMA_BUFFER_SIZE"
    by (simp_all add: second_item_waiting_def boot_state_def)
  show ?thesis
    using h callback_advances_head [OF h]
    by (simp add: second_item_waiting_def boot_state_def Let_def restart_dma_def
        HAL_UART_Transmit_DMA_def u16_def)
qed

section \<open>Copying an item into the circular buffer\<close>

lemma memcpy_ok:
  "doff + n \<le> length dst \<Longrightarrow> soff + n \<le> length src \<Longrightarrow>
   memcpy dst doff src soff n = Inr (store dst doff (take n (drop soff src)))"
  by (simp add: memcpy_def)

lemma queue_copy_result:
  assumes q: "length q = 4096" and t: "unat tail < 4096"
      and n: "unat len \<le> 4096" and cb: "unat len \<le> length cb"
  shows "queue_copy q tail cb len
           = Inr (ring_write q (unat tail) (take (unat len) cb),
                  u16 (int ((unat tail + unat len) mod 4096)))"
proof -
  define tp where "tp = unat tail"
  define k where "k = unat len"
  have ut: "uint tail = int tp" and ul: "uint len = int k"
    by (simp_all add: tp_def k_def)
  have t': "tp < 4096" and n': "k \<le> 4096" and cb': "k \<le> length cb"
    using t n cb by (simp_all add: tp_def k_def)
  have litem: "length (take k cb) = k"
    using cb' by simp
  show ?thesis
  proof (cases "4096 \<le> tp + k")
    case True
    have l1: "uint (u16 (4096 - int tp)) = int (4096 - tp)" "unat (u16 (4096 - int tp)) = 4096 - tp"
      using t' by (simp_all add: uint_u16 unat_u16)
    have n2: "int k - int (4096 - tp) = int (k - (4096 - tp))"
      using True t' by simp
    have m: "(tp + k) mod 4096 = k - (4096 - tp)"
    proof -
      have "(tp + k) mod 4096 = (tp + k - 4096) mod 4096"
        using True by (simp add: le_mod_geq)
      also have "\<dots> = tp + k - 4096"
        using t' n' by simp
      finally show ?thesis using True t' by simp
    qed
    have c1: "memcpy q tp cb 0 (4096 - tp) = Inr (store q tp (take (4096 - tp) cb))"
      using q t' cb' True by (subst memcpy_ok) simp_all
    have lq1: "length (store q tp (take (4096 - tp) cb)) = 4096"
      using q t' cb' True by (subst length_store) simp_all
    have c2: "memcpy (store q tp (take (4096 - tp) cb)) 0 cb (4096 - tp) (k - (4096 - tp))
                = Inr (store (store q tp (take (4096 - tp) cb)) 0
                         (take (k - (4096 - tp)) (drop (4096 - tp) cb)))"
      using lq1 cb' n' True by (subst memcpy_ok) simp_all
    have a: "take (4096 - tp) (take k cb) = take (4096 - tp) cb"
      using True by (simp add: min_absorb1)
    have b: "drop (4096 - tp) (take k cb) = take (k - (4096 - tp)) (drop (4096 - tp) cb)"
      by (simp add: drop_take)
    have nn: "nat (int k - int (4096 - tp)) = k - (4096 - tp)"
      by (simp only: n2 nat_int)
    have "queue_copy q tail cb len
            = Inr (store (store q tp (take (4096 - tp) cb)) 0
                         (take (k - (4096 - tp)) (drop (4096 - tp) cb)),
                   u16 (int k - int (4096 - tp)))"
      unfolding queue_copy_def Let_def ut ul l1 tp_def [symmetric] k_def [symmetric] nn
      using True c1 c2 by simp
    then have "queue_copy q tail cb len
            = Inr (store (store q tp (take (4096 - tp) cb)) 0
                         (take (k - (4096 - tp)) (drop (4096 - tp) cb)),
                   u16 (int (k - (4096 - tp))))"
      by (simp only: n2)
    then show ?thesis
      unfolding tp_def [symmetric] k_def [symmetric] ring_write_def litem m a b
      using True by simp
  next
    case False
    then have m: "(tp + k) mod 4096 = tp + k" by simp
    have c: "memcpy q tp cb 0 k = Inr (store q tp (take k cb))"
      using q cb' False by (subst memcpy_ok) simp_all
    have w: "tail + len = u16 (int (tp + k))"
      by (simp add: u16_add ut ul)
    have "queue_copy q tail cb len = Inr (store q tp (take k cb), u16 (int (tp + k)))"
      unfolding queue_copy_def Let_def ut ul tp_def [symmetric] k_def [symmetric] w
      using False c by simp
    then show ?thesis
      unfolding tp_def [symmetric] k_def [symmetric] ring_write_def litem m
      using False by simp
  qed
qed

lemma ring_write_flat:
  assumes "length q = 4096" "tp + length item < 4096"
  shows "ring_write q tp item = take tp q @ item @ drop (tp + length item) q"
  using assms by (simp add: ring_write_def store_def)

lemma ring_write_wrapped:
  assumes "length q = 4096" "tp < 4096" "4096 \<le> tp + length item" "length item \<le> 4096"
  shows "ring_write q tp item
           = drop (4096 - tp) item @ drop (tp + length item - 4096) (take tp q)
               @ take (4096 - tp) item"
  using assms by (simp add: ring_write_def store_def min_absorb1 add.commute)

lemma length_ring_write:
  assumes "length q = 4096" "tp < 4096" "length item \<le> 4096"
  shows "length (ring_write q tp item) = 4096"
proof (cases "4096 \<le> tp + length item")
  case True
  with assms show ?thesis by (simp add: ring_write_wrapped)
next
  case False
  with assms show ?thesis by (simp add: ring_write_flat)
qed


lemma log_space_available_compose [simp]:
  "log_space_available (s\<lparr>log_compose_buffer := cb\<rparr>) = log_space_available s"
  by (simp add: log_space_available_def)

lemma logmsg_accepted:
  assumes q: "length (usart2_tx_dma_buffer s) = 4096"
      and cbl: "length (log_compose_buffer s) = 128"
      and t: "unat (queue_tail s) < 4096"
      and run: "logmsg s tick txt = Inr (r, s')" and acc: "0 \<le> r"
  obtains cb n where
      "n = unat (snd (snd (compose_item (log_compose_buffer s) tick txt)))"
      "cb = (fst (compose_item (log_compose_buffer s) tick txt))[n - 1 := CHR 0x0A]"
      "0 < n" "n \<le> 128" "r = int n" "int n \<le> uint (log_space_available s)"
      "s' = snd (restart_dma
                (s\<lparr>log_compose_buffer := cb,
                   usart2_tx_dma_buffer :=
                     ring_write (usart2_tx_dma_buffer s) (unat (queue_tail s)) (take n cb),
                   queue_tail := u16 (int ((unat (queue_tail s) + n) mod 4096))\<rparr>))"
proof -
  obtain cb2 tsl len
    where c: "compose_item (log_compose_buffer s) tick txt = (cb2, tsl, len)"
    by (cases "compose_item (log_compose_buffer s) tick txt") auto
  define n where "n = unat len"
  define cb where "cb = cb2[n - 1 := CHR 0x0A]"
  have ul: "uint len = int n" by (simp add: n_def)
  have lcb: "length cb = 128"
    using compose_item_buffer_length [OF cbl, of tick "txt"] c by (simp add: cb_def)
  have fits: "\<not> uint (log_space_available s) < int n"
  proof
    assume "uint (log_space_available s) < int n"
    then have "logmsg s tick txt = Inr (- 1, s\<lparr>log_compose_buffer := cb2\<rparr>)"
      using c by (simp add: logmsg_def ul)
    with run acc show False by simp
  qed
  have inb: "\<not> (int n - 1 < 0 \<or> int n - 1 \<ge> 128)"
  proof
    assume "int n - 1 < 0 \<or> int n - 1 \<ge> 128"
    then have "logmsg s tick txt = Inl ComposeOverrun"
      using c fits by (simp add: logmsg_def ul)
    with run show False by simp
  qed
  then have n: "0 < n" "n \<le> 128" by auto
  have idx: "nat (int n - 1) = n - 1" by simp
  have cbS: "cb2[n - Suc 0 := CHR 0x0A] = cb" by (simp add: cb_def)
  have qc: "queue_copy (usart2_tx_dma_buffer s) (queue_tail s) cb len
              = Inr (ring_write (usart2_tx_dma_buffer s) (unat (queue_tail s)) (take n cb),
                     u16 (int ((unat (queue_tail s) + n) mod 4096)))"
    unfolding n_def using q t n lcb by (intro queue_copy_result) (simp_all add: n_def)
  have "logmsg s tick txt
          = Inr (int n, snd (restart_dma
                (s\<lparr>log_compose_buffer := cb,
                   usart2_tx_dma_buffer :=
                     ring_write (usart2_tx_dma_buffer s) (unat (queue_tail s)) (take n cb),
                   queue_tail := u16 (int ((unat (queue_tail s) + n) mod 4096))\<rparr>)))"
    using c fits inb qc by (simp add: logmsg_def ul idx cbS Let_def del: of_nat_diff)
  with run have "r = int n"
    "s' = snd (restart_dma
                (s\<lparr>log_compose_buffer := cb,
                   usart2_tx_dma_buffer :=
                     ring_write (usart2_tx_dma_buffer s) (unat (queue_tail s)) (take n cb),
                   queue_tail := u16 (int ((unat (queue_tail s) + n) mod 4096))\<rparr>))"
    by simp_all
  moreover have "n = unat (snd (snd (compose_item (log_compose_buffer s) tick txt)))"
    "cb = (fst (compose_item (log_compose_buffer s) tick txt))[n - 1 := CHR 0x0A]"
    using c by (simp_all add: n_def cb_def)
  moreover have "int n \<le> uint (log_space_available s)"
    using fits by simp
  ultimately show ?thesis
    using n that by blast
qed



text \<open>
  C10. For an accepted call of \<^verbatim>\<open>logmsg\<close> whose item ends exactly at the end of the
  array (\<open>tail + r = C\<close>): the copy takes the branch with two \<^verbatim>\<open>memcpy\<close> calls, the
  first of all \<open>r\<close> bytes at the tail, the second of zero bytes at the front, and tail
  becomes 0, not \<open>C\<close>. Afterwards the buffer is its old first \<open>tail\<close> bytes followed by
  the \<open>r\<close> bytes of the item: position \<open>tail + i\<close> holds byte \<open>i\<close> of the compose
  buffer for every \<open>i < r\<close>, the positions below tail are as before, and the length is
  still \<open>C\<close>.
\<close>

theorem logmsg_exact_fit:
  assumes "length (usart2_tx_dma_buffer s) = 4096" "length (log_compose_buffer s) = 128"
      and "uint (queue_tail s) < LOG_DMA_BUFFER_SIZE"
      and "logmsg s tick txt = Inr (r, s')" and "0 \<le> r"
      and "uint (queue_tail s) + r = LOG_DMA_BUFFER_SIZE"
  shows "let tp = unat (queue_tail s); n = nat r; q = usart2_tx_dma_buffer s;
             cb = log_compose_buffer s'
         in queue_copy q (queue_tail s) cb (u16 r)
              = (case memcpy q tp cb 0 n of
                   Inl f \<Rightarrow> Inl f
                 | Inr q1 \<Rightarrow>
                    (case memcpy q1 0 cb n 0 of
                       Inl f \<Rightarrow> Inl f
                     | Inr q2 \<Rightarrow> Inr (q2, 0)))
            \<and> usart2_tx_dma_buffer s' = store (store q tp (take n cb)) 0 []
            \<and> usart2_tx_dma_buffer s' = store q tp (take n cb)
            \<and> queue_tail s' = 0
            \<and> length (usart2_tx_dma_buffer s') = 4096
            \<and> usart2_tx_dma_buffer s' = take tp q @ take n cb
            \<and> (\<forall>i<n. usart2_tx_dma_buffer s' ! (tp + i) = cb ! i)
            \<and> (\<forall>j<tp. usart2_tx_dma_buffer s' ! j = q ! j)"
proof -
  have t: "unat (queue_tail s) < 4096"
    using assms(3) by (simp add: unat_eq_nat_uint del: nat_uint_eq)
  from assms(1,2) t assms(4,5) obtain cb n where
      n: "n = unat (snd (snd (compose_item (log_compose_buffer s) tick txt)))"
      and cb: "cb = (fst (compose_item (log_compose_buffer s) tick txt))[n - 1 := CHR 0x0A]"
      and b: "0 < n" "n \<le> 128" and r: "r = int n"
      and s': "s' = snd (restart_dma
                (s\<lparr>log_compose_buffer := cb,
                   usart2_tx_dma_buffer :=
                     ring_write (usart2_tx_dma_buffer s) (unat (queue_tail s)) (take n cb),
                   queue_tail := u16 (int ((unat (queue_tail s) + n) mod 4096))\<rparr>))"
    by (rule logmsg_accepted)
  define tp where "tp = unat (queue_tail s)"
  define q where "q = usart2_tx_dma_buffer s"
  have ut: "uint (queue_tail s) = int tp" by (simp add: tp_def)
  have e: "tp + n = 4096"
    using assms(6) unfolding ut r by linarith
  have tp: "tp < 4096" using t by (simp add: tp_def)
  have lcb: "length cb = 128"
    using compose_item_buffer_length [OF assms(2), of tick "txt"] by (simp add: cb)
  have li: "length (take n cb) = n"
    using lcb b by simp
  have comp: "log_compose_buffer s' = cb" by (simp add: s')
  have nr: "nat r = n" by (simp add: r)
  have ur: "uint (u16 (int n)) = int n" "unat (u16 (int n)) = n"
    using b by (simp_all add: uint_u16 unat_u16)
  have l1: "uint (u16 (4096 - int tp)) = int n" "unat (u16 (4096 - int tp)) = n"
    using e tp by (simp_all add: uint_u16 unat_u16)
  have z: "u16 0 = 0" by (simp add: u16_def)
  have qc: "queue_copy q (queue_tail s) cb (u16 (int n))
              = (case memcpy q tp cb 0 n of
                   Inl f \<Rightarrow> Inl f
                 | Inr q1 \<Rightarrow>
                    (case memcpy q1 0 cb n 0 of
                       Inl f \<Rightarrow> Inl f
                     | Inr q2 \<Rightarrow> Inr (q2, 0)))"
    unfolding queue_copy_def Let_def ut ur l1 tp_def [symmetric]
    using e by (simp add: z cong: sum.case_cong)
  have "usart2_tx_dma_buffer s' = ring_write q tp (take n cb)"
    by (simp add: s' q_def tp_def)
  moreover have d: "4096 - tp = n" using e by simp
  ultimately have buf: "usart2_tx_dma_buffer s' = store (store q tp (take n cb)) 0 []"
    using e li by (simp add: ring_write_def)
  then have buf2: "usart2_tx_dma_buffer s' = store q tp (take n cb)"
    by (simp add: store_def)
  have "queue_tail s' = u16 (int ((tp + n) mod 4096))"
    by (simp add: s' tp_def)
  then have tail: "queue_tail s' = 0"
    unfolding e by (simp add: z)
  have lq: "length q = 4096" using assms(1) by (simp add: q_def)
  have flat: "usart2_tx_dma_buffer s' = take tp q @ take n cb"
    using buf2 lq e lcb b by (simp add: store_def)
  have len: "length (usart2_tx_dma_buffer s') = 4096"
    unfolding flat using lq tp li e by simp
  have new: "\<forall>i<n. usart2_tx_dma_buffer s' ! (tp + i) = cb ! i"
    unfolding flat using lq tp by (simp add: nth_append)
  have keep: "\<forall>j<tp. usart2_tx_dma_buffer s' ! j = q ! j"
    unfolding flat using lq tp by (simp add: nth_append)
  show ?thesis
    unfolding Let_def r nat_int comp tp_def [symmetric] q_def [symmetric]
    using qc buf buf2 tail len flat new keep by blast
qed

theorem logmsg_exact_fit_witness:
  "length (usart2_tx_dma_buffer exact_fit_state) = 4096
   \<and> length (log_compose_buffer exact_fit_state) = 128
   \<and> uint (queue_tail exact_fit_state) < LOG_DMA_BUFFER_SIZE
   \<and> logmsg exact_fit_state 0 '''' = Inr (5, snd (projr (logmsg exact_fit_state 0 '''')))
   \<and> uint (queue_tail exact_fit_state) + 5 = LOG_DMA_BUFFER_SIZE
   \<and> queue_tail (snd (projr (logmsg exact_fit_state 0 ''''))) = 0
   \<and> usart2_tx_dma_buffer (snd (projr (logmsg exact_fit_state 0 '''')))
       = take 4091 (usart2_tx_dma_buffer exact_fit_state)
           @ take 5 (log_compose_buffer (snd (projr (logmsg exact_fit_state 0 ''''))))
   \<and> take 5 (log_compose_buffer (snd (projr (logmsg exact_fit_state 0 ''''))))
       = ''(0) '' @ [CHR 0x0A]
   \<and> usart2_tx_dma_buffer (snd (projr (logmsg exact_fit_state 0 '''')))
       = replicate 4091 (CHR 0x00) @ ''(0) '' @ [CHR 0x0A]
   \<and> usart2_tx_dma_buffer (snd (projr (logmsg exact_fit_state 0 ''''))) ! 4091 = CHR ''(''
   \<and> usart2_tx_dma_buffer (snd (projr (logmsg exact_fit_state 0 ''''))) ! 4095 = CHR 0x0A"
proof -
  have h: "length (usart2_tx_dma_buffer exact_fit_state) = 4096"
          "length (log_compose_buffer exact_fit_state) = 128"
          "uint (queue_tail exact_fit_state) < LOG_DMA_BUFFER_SIZE"
    by (simp_all add: exact_fit_state_def boot_state_def)
  have run: "logmsg exact_fit_state 0 '''' = Inr (5, snd (projr (logmsg exact_fit_state 0 '''')))"
    by (simp add: logmsg_def compose_item_def snprintf_at_def store_def timestamp_def dec.simps
        u16_def exact_fit_state_def boot_state_def log_space_available_def Let_def
        queue_copy_def memcpy_def)
  have acc: "(0::int) \<le> 5" by simp
  have fit: "uint (queue_tail exact_fit_state) + 5 = LOG_DMA_BUFFER_SIZE"
    by (simp add: exact_fit_state_def boot_state_def)
  have tp: "unat (queue_tail exact_fit_state) = 4091"
    by (simp add: exact_fit_state_def boot_state_def)
  have n5: "nat (5::int) = 5" by simp
  have zero: "char_of (48::nat) = CHR ''0''" by code_simp
  have item: "take 5 (log_compose_buffer (snd (projr (logmsg exact_fit_state 0 ''''))))
                = ''(0) '' @ [CHR 0x0A]"
    by (simp add: logmsg_def compose_item_def snprintf_at_def store_def timestamp_def dec.simps
        u16_def exact_fit_state_def boot_state_def log_space_available_def Let_def
        queue_copy_def memcpy_def zero)
  have tail: "queue_tail (snd (projr (logmsg exact_fit_state 0 ''''))) = 0"
    and buf: "usart2_tx_dma_buffer (snd (projr (logmsg exact_fit_state 0 '''')))
       = take 4091 (usart2_tx_dma_buffer exact_fit_state)
           @ take 5 (log_compose_buffer (snd (projr (logmsg exact_fit_state 0 ''''))))"
    using logmsg_exact_fit [OF h run acc fit] unfolding Let_def tp n5 by blast+
  have old: "take 4091 (usart2_tx_dma_buffer exact_fit_state) = replicate 4091 (CHR 0x00)"
    by (simp add: exact_fit_state_def boot_state_def)
  have whole: "usart2_tx_dma_buffer (snd (projr (logmsg exact_fit_state 0 '''')))
       = replicate 4091 (CHR 0x00) @ ''(0) '' @ [CHR 0x0A]"
    unfolding buf item old ..
  have b0: "usart2_tx_dma_buffer (snd (projr (logmsg exact_fit_state 0 ''''))) ! 4091 = CHR ''(''"
    unfolding whole by (simp add: nth_append)
  have b4: "usart2_tx_dma_buffer (snd (projr (logmsg exact_fit_state 0 ''''))) ! 4095 = CHR 0x0A"
    unfolding whole by (simp add: nth_append)
  from h run fit tail buf item whole b0 b4 show ?thesis by blast
qed

section \<open>The index invariant\<close>

lemma restart_dma_idle:
  assumes idle: "huart2 s = None"
      and h: "unat (queue_head s) < 4096" and t: "unat (queue_tail s) < 4096"
  shows "restart_dma s =
           (let h = unat (queue_head s); k = min (pending h (unat (queue_tail s))) (4096 - h)
            in (u16 (int k),
                s\<lparr>last_dma_count := u16 (int k),
                  huart2 := (if k = 0 then None else Some (h, k))\<rparr>))"
proof -
  define hh where "hh = unat (queue_head s)"
  define tt where "tt = unat (queue_tail s)"
  define k where "k = min (pending hh tt) (4096 - hh)"
  have b: "hh < 4096" "tt < 4096" using h t by (simp_all add: hh_def tt_def)
  have uh: "uint (queue_head s) = int hh" and ut: "uint (queue_tail s) = int tt"
    by (simp_all add: hh_def tt_def)
  have p: "(if int hh \<le> int tt then int tt - int hh else 4096 - (int hh - int tt))
             = int (pending hh tt)"
    using b by (simp add: pending_def)
  have pb: "pending hh tt < 4096"
    using b by (auto simp add: pending_def)
  have up: "uint (u16 (int (pending hh tt))) = int (pending hh tt)"
    using pb by (simp add: uint_u16)
  have q: "(if int (pending hh tt) > 4096 - int hh then 4096 - int hh else int (pending hh tt))
             = int k"
    using b by (simp add: k_def min_def) arith
  have kb: "k < 65536" using b by (simp add: k_def)
  have uk: "unat (u16 (int k)) = k"
    using kb by (rule unat_u16_int)
  have "restart_dma s =
       (let s1 = s\<lparr>last_dma_count := u16 (int k)\<rparr>;
            s2 = HAL_UART_Transmit_DMA s1 (unat (queue_head s1)) (unat (last_dma_count s1))
        in (last_dma_count s2, s2))"
    using idle unfolding restart_dma_def Let_def uh ut p up q by simp
  also have "\<dots> = (u16 (int k),
                s\<lparr>last_dma_count := u16 (int k),
                  huart2 := (if k = 0 then None else Some (hh, k))\<rparr>)"
    using idle by (simp add: Let_def uk HAL_UART_Transmit_DMA_def hh_def)
  finally show ?thesis
    unfolding Let_def hh_def [symmetric] tt_def [symmetric] k_def [symmetric] .
qed

lemma callback_step:
  assumes ne: "queue_head s \<noteq> queue_tail s"
      and b: "unat (queue_head s) + unat (last_dma_count s) \<le> 4096"
  shows "HAL_UART_TxCpltCallback s
           = snd (restart_dma
               (s\<lparr>queue_head :=
                    u16 (int ((unat (queue_head s) + unat (last_dma_count s)) mod 4096)),
                  last_dma_count := 0\<rparr>))"
proof -
  have "uint (queue_head s) + uint (last_dma_count s)
          = int (unat (queue_head s) + unat (last_dma_count s))"
    by simp
  moreover from this b have "uint (queue_head s) + uint (last_dma_count s) < 2 * 4096"
    by linarith
  ultimately show ?thesis
    using callback_eq [OF ne] by (simp add: Let_def zmod_int del: of_nat_add)
qed

lemma logmsg_rejected:
  assumes "logmsg s tick txt = Inr (r, s')" and "r < 0"
  shows "s' = s\<lparr>log_compose_buffer := fst (compose_item (log_compose_buffer s) tick txt)\<rparr>"
proof -
  obtain cb2 tsl len
    where c: "compose_item (log_compose_buffer s) tick txt = (cb2, tsl, len)"
    by (cases "compose_item (log_compose_buffer s) tick txt") auto
  have "0 \<le> uint len" by simp
  with assms c show ?thesis
    by (auto simp add: logmsg_def Let_def split: if_splits sum.splits)
qed

lemma pump_invariant_restart_dma:
  assumes "pump_invariant s"
  shows "pump_invariant (snd (restart_dma s))"
proof (cases "huart2 s")
  case (Some e)
  then have "restart_dma s = (0, s)" by (simp add: restart_dma_busy)
  with assms show ?thesis by simp
next
  case None
  from assms have h: "unat (queue_head s) < 4096" and t: "unat (queue_tail s) < 4096"
    by (simp_all add: pump_invariant_def)
  define k where "k = min (pending (unat (queue_head s)) (unat (queue_tail s)))
                        (4096 - unat (queue_head s))"
  have k: "k \<le> 4096 - unat (queue_head s)" by (simp add: k_def)
  then have uk: "unat (u16 (int k)) = k" by (intro unat_u16_int) simp
  have "snd (restart_dma s)
          = s\<lparr>last_dma_count := u16 (int k),
              huart2 := (if k = 0 then None else Some (unat (queue_head s), k))\<rparr>"
    using restart_dma_idle [OF None h t] by (simp add: Let_def k_def)
  with assms k h show ?thesis
    by (simp add: pump_invariant_def uk)
qed

lemma pump_invariant_logmsg:
  assumes inv: "pump_invariant s" and run: "logmsg s tick txt = Inr (r, s')"
  shows "pump_invariant s'"
proof (cases "r < 0")
  case True
  from inv have "length (log_compose_buffer s) = 128" by (simp add: pump_invariant_def)
  then have "length (fst (compose_item (log_compose_buffer s) tick txt)) = 128"
    by (rule compose_item_buffer_length)
  with inv logmsg_rejected [OF run True] show ?thesis
    by (simp add: pump_invariant_def)
next
  case False
  then have acc: "0 \<le> r" by simp
  from inv have q: "length (usart2_tx_dma_buffer s) = 4096"
    and cbl: "length (log_compose_buffer s) = 128"
    and t: "unat (queue_tail s) < 4096"
    by (simp_all add: pump_invariant_def)
  from q cbl t run acc obtain cb n where
      cb: "cb = (fst (compose_item (log_compose_buffer s) tick txt))[n - 1 := CHR 0x0A]"
      and b: "n \<le> 128"
      and s': "s' = snd (restart_dma
                (s\<lparr>log_compose_buffer := cb,
                   usart2_tx_dma_buffer :=
                     ring_write (usart2_tx_dma_buffer s) (unat (queue_tail s)) (take n cb),
                   queue_tail := u16 (int ((unat (queue_tail s) + n) mod 4096))\<rparr>))"
    by (rule logmsg_accepted)
  have lcb: "length cb = 128"
    using compose_item_buffer_length [OF cbl, of tick "txt"] by (simp add: cb)
  have lq: "length (ring_write (usart2_tx_dma_buffer s) (unat (queue_tail s)) (take n cb)) = 4096"
    using q t b by (intro length_ring_write) simp_all
  have ut: "unat (u16 (int ((unat (queue_tail s) + n) mod 4096)))
              = (unat (queue_tail s) + n) mod 4096"
    by (intro unat_u16_int) simp
  have "pump_invariant
          (s\<lparr>log_compose_buffer := cb,
             usart2_tx_dma_buffer :=
               ring_write (usart2_tx_dma_buffer s) (unat (queue_tail s)) (take n cb),
             queue_tail := u16 (int ((unat (queue_tail s) + n) mod 4096))\<rparr>)"
    using inv lcb lq by (simp add: pump_invariant_def ut)
  then show ?thesis
    unfolding s' by (rule pump_invariant_restart_dma)
qed

lemma pump_invariant_callback:
  assumes inv: "pump_invariant s"
  shows "pump_invariant (HAL_UART_TxCpltCallback s)"
proof (cases "queue_head s = queue_tail s")
  case True
  with inv show ?thesis by (simp add: HAL_UART_TxCpltCallback_def)
next
  case False
  from inv have b: "unat (queue_head s) + unat (last_dma_count s) \<le> 4096"
    by (simp add: pump_invariant_def)
  have uh: "unat (u16 (int ((unat (queue_head s) + unat (last_dma_count s)) mod 4096)))
              = (unat (queue_head s) + unat (last_dma_count s)) mod 4096"
    by (intro unat_u16_int) simp
  have "pump_invariant
          (s\<lparr>queue_head :=
               u16 (int ((unat (queue_head s) + unat (last_dma_count s)) mod 4096)),
             last_dma_count := 0\<rparr>)"
    using inv by (simp add: pump_invariant_def uh)
  then show ?thesis
    unfolding callback_step [OF False b] by (rule pump_invariant_restart_dma)
qed

lemma reachable_pump_invariant: "reachable s \<Longrightarrow> pump_invariant s"
proof (induction rule: reachable.induct)
  case (init s)
  then show ?case by (simp add: pump_invariant_def log_init_def)
next
  case (log s tick m r s')
  then show ?case by (blast intro: pump_invariant_logmsg)
next
  case (pump s)
  from pump.IH show ?case by (rule pump_invariant_restart_dma)
next
  case (complete s)
  from complete.IH show ?case by (rule pump_invariant_callback)
next
  case (engine s e)
  then show ?case by (simp add: pump_invariant_def)
qed

lemma pending_bytes_arith:
  assumes "0 \<le> (h::int)" "h < 4096" "0 \<le> (t::int)" "t < 4096"
  shows "((if h \<le> t then t - h else 4096 - (h - t)) = 0) = (h = t)"
    and "0 \<le> (if h \<le> t then t - h else 4096 - (h - t))"
    and "(if h \<le> t then t - h else 4096 - (h - t)) \<le> 4095"
  using assms by auto

lemma pump_invariant_queue_invariant:
  assumes "pump_invariant s"
  shows "queue_invariant s"
proof -
  have "uint (queue_head s) = int (unat (queue_head s))"
       "uint (queue_tail s) = int (unat (queue_tail s))"
    by simp_all
  moreover have "unat (queue_head s) < 4096" "unat (queue_tail s) < 4096"
    using assms by (simp_all add: pump_invariant_def)
  ultimately have h: "uint (queue_head s) < 4096" and t: "uint (queue_tail s) < 4096"
    by linarith+
  have e: "(uint (queue_head s) = uint (queue_tail s)) = (queue_head s = queue_tail s)"
    by (simp add: word_uint_eq_iff)
  show ?thesis
    unfolding queue_invariant_def pending_bytes_def Let_def
    using h t pending_bytes_arith [OF _ h _ t] e by simp
qed

text \<open>
  C8. In every state the logger can reach, the indices satisfy \<open>0 \<le> head < C\<close> and
  \<open>0 \<le> tail < C\<close>, the queue is empty exactly when head equals tail, and it holds at
  most \<open>C - 1\<close> bytes; and from such a state each of \<^verbatim>\<open>log_init\<close>, \<^verbatim>\<open>logmsg\<close>
  (accepted or rejected), \<^verbatim>\<open>restart_dma\<close> and the completion callback leads to a state
  that satisfies the same invariant.
\<close>

theorem queue_invariant_preserved:
  assumes "reachable s"
  shows "queue_invariant s
         \<and> queue_invariant (snd (log_init s))
         \<and> (\<forall>tick txt r s'. logmsg s tick txt = Inr (r, s') \<longrightarrow> queue_invariant s')
         \<and> queue_invariant (snd (restart_dma s))
         \<and> queue_invariant (HAL_UART_TxCpltCallback s)"
proof -
  have inv: "pump_invariant s"
    using assms by (rule reachable_pump_invariant)
  then have "reachable (snd (log_init s))"
    by (intro reachable.init) (simp_all add: pump_invariant_def)
  moreover have "reachable s'" if "logmsg s tick m = Inr (r, s')" for tick m r s'
    using assms that by (rule reachable.log)
  moreover have "reachable (snd (restart_dma s))"
    using assms by (rule reachable.pump)
  moreover have "reachable (HAL_UART_TxCpltCallback s)"
    using assms by (rule reachable.complete)
  ultimately show ?thesis
    using assms by (blast intro: pump_invariant_queue_invariant reachable_pump_invariant)
qed

theorem queue_invariant_preserved_witness:
  "reachable first_item_logged
   \<and> queue_invariant first_item_logged
   \<and> queue_invariant (snd (log_init first_item_logged))
   \<and> logmsg first_item_logged 1 ''hi''
       = Inr (7, snd (projr (logmsg first_item_logged 1 ''hi'')))
   \<and> queue_invariant (snd (projr (logmsg first_item_logged 1 ''hi'')))
   \<and> queue_invariant (snd (restart_dma first_item_logged))
   \<and> queue_invariant (HAL_UART_TxCpltCallback first_item_logged)"
proof -
  have i: "reachable (snd (log_init boot_state))"
    by (rule reachable.init) (simp_all add: boot_state_def)
  have "logmsg (snd (log_init boot_state)) 0 ''hello'' = Inr (10, first_item_logged)"
    by (simp add: first_item_logged_def logmsg_def compose_item_def snprintf_at_def store_def
        timestamp_def dec.simps u16_def log_init_def boot_state_def log_space_available_def
        Let_def queue_copy_def memcpy_def)
  with i have h: "reachable first_item_logged"
    by (rule reachable.log)
  have run: "logmsg first_item_logged 1 ''hi''
               = Inr (7, snd (projr (logmsg first_item_logged 1 ''hi'')))"
    by (simp add: first_item_logged_def logmsg_def compose_item_def snprintf_at_def store_def
        timestamp_def dec.simps u16_def log_init_def boot_state_def log_space_available_def
        Let_def queue_copy_def memcpy_def restart_dma_def HAL_UART_Transmit_DMA_def)
  show ?thesis
    using h run queue_invariant_preserved [OF h] by blast
qed

section \<open>First in, first out\<close>






lemma queued_restart_dma [simp]: "queued (snd (restart_dma s)) = queued s"
  by (simp add: queued_def)










text \<open>
  What an accepted call adds to the history when nothing is truncated: the timestamp, the
  text and a line feed.
\<close>

lemma client_log_bytes:
  assumes inv: "fifo_invariant y" and run: "client_log y tick txt = Inr y'"
      and short: "length (timestamp tick) + length txt \<le> 127"
  shows "accepted y' = accepted y
         \<or> accepted y' = accepted y @ timestamp tick @ txt @ [CHR 0x0A]"
proof -
  obtain r m' where lm: "logmsg (mem y) tick txt = Inr (r, m')"
    and y': "y' = y\<lparr>mem := m',
                    accepted := accepted y @ (if r < 0 then [] else take (nat r) (log_compose_buffer m'))\<rparr>"
    using run by (auto simp add: client_log_def split: sum.splits)
  show ?thesis
  proof (cases "r < 0")
    case True
    then show ?thesis by (simp add: y')
  next
    case False
    then have acc: "0 \<le> r" by simp
    from inv have ql: "length (usart2_tx_dma_buffer (mem y)) = 4096"
      and cl: "length (log_compose_buffer (mem y)) = 128"
      and tb: "unat (queue_tail (mem y)) < 4096"
      by (simp_all add: fifo_invariant_def Let_def)
    from ql cl tb lm acc obtain cb n where
        n: "n = unat (snd (snd (compose_item (log_compose_buffer (mem y)) tick txt)))"
        and cb: "cb = (fst (compose_item (log_compose_buffer (mem y)) tick txt))[n - 1 := CHR 0x0A]"
        and r: "r = int n"
        and m': "m' = snd (restart_dma
                  ((mem y)\<lparr>log_compose_buffer := cb,
                     usart2_tx_dma_buffer :=
                       ring_write (usart2_tx_dma_buffer (mem y)) (unat (queue_tail (mem y)))
                         (take n cb),
                     queue_tail := u16 (int ((unat (queue_tail (mem y)) + n) mod 4096))\<rparr>))"
      by (rule logmsg_accepted)
    obtain cb2 tsl len
      where c: "compose_item (log_compose_buffer (mem y)) tick txt = (cb2, tsl, len)"
      by (cases "compose_item (log_compose_buffer (mem y)) tick txt") auto
    have "take (unat len) (cb2[unat len - 1 := CHR 0x0A]) = timestamp tick @ txt @ [CHR 0x0A]"
      using cl short c by (rule compose_item_bytes(2))
    then have "take n cb = timestamp tick @ txt @ [CHR 0x0A]"
      by (simp add: n cb c)
    moreover have "log_compose_buffer m' = cb" by (simp add: m')
    ultimately show ?thesis
      using False by (simp add: y' r)
  qed
qed



lemma digit_chars: "char_of (48::nat) = CHR ''0''" "char_of (49::nat) = CHR ''1''"
  by code_simp+

lemma wire_two_messages:
  "wire after_two_messages = ''(0) hello'' @ [CHR 0x0A] @ ''(1) hi'' @ [CHR 0x0A]"
  by (simp add: after_two_messages_def two_messages_def client_log_def tx_complete_def
      logmsg_def compose_item_def snprintf_at_def store_def timestamp_def dec.simps u16_def
      log_init_def boot_state_def log_space_available_def Let_def queue_copy_def memcpy_def
      restart_dma_def HAL_UART_Transmit_DMA_def HAL_UART_TxCpltCallback_def digit_chars)


end
